theory Spec2Isabelle
  imports Main "HOL-Library.Word"
begin

unbundle bit_operations_syntax

section \<open>checksymlinks: a model of main.go\<close>

text \<open>
  The program is one function, \<open>main\<close>, with one closure, the callback given to
  \<open>filepath.Walk\<close>, and the helper \<open>debug\<close>. The model follows that shape:
  \<^item> the parsed command line is a record \<open>config\<close> (the three flags and \<open>fs.Args()\<close>);
  \<^item> everything the operating system answers is an input: \<open>os.Stat\<close> and \<open>os.Chdir\<close> on
    the root, and the directory tree met by the walk, where every non-directory entry
    carries the results that \<open>os.Lstat\<close>, \<open>filepath.EvalSymlinks\<close> and \<open>os.Remove\<close> give
    for it when the callback asks;
  \<^item> the four counters, the list of operating-system calls made so far (with their
    results) and the list of lines written so far are the state, passed explicitly;
  \<^item> \<open>os.Exit\<close> and \<open>log.Fatalf\<close> end the run: \<open>main\<close> returns the exit status with the
    state reached.
  The source file holds two revisions of the program. The second one has no \<open>-quiet\<close>
  flag and writes every informational line with \<open>log.Printf\<close>; it is the first one
  with \<open>quiet = False\<close>, but for the last line of the usage text.
  The counters are Go \<open>int\<close> (64 bits on the usual platforms). Each is incremented at most
  once per entry visited, so no run reaches the wrap-around; they are \<open>nat\<close> here.
\<close>

subsection \<open>Errors, file modes, output\<close>

datatype error = ErrNotExist | ErrPermission | ErrOther string

text \<open>\<open>os.IsNotExist(err)\<close>; it is false on \<open>nil\<close>.\<close>

definition IsNotExist :: "error option \<Rightarrow> bool" where
  "IsNotExist err = (err = Some ErrNotExist)"

type_synonym FileMode = "32 word"

text \<open>\<open>os.ModeSymlink\<close>, the fifth mode bit from the top: \<open>1 << (32 - 1 - 4)\<close>.\<close>

definition ModeSymlink :: FileMode where
  "ModeSymlink = push_bit (32 - 1 - 4) 1"

datatype stream = Stdout | Stderr

text \<open>One constructor for each format string of the program.\<close>

datatype msg =
    UnknownArguments "string list"
  | NoRootPathGiven
  | FlagsNotAllowedTogether
  | UsageHeader
  | PrintDefaults
  | UsageExamples
  | VersionLine
  | PathDoesNotExist string
  | CouldNotChangeToRootDir string error
  | RootDir string
  | PreventPanic string error
  | VisitedDir string
  | CouldNotGetStat string error
  | RemoveLink string
  | CouldNotRemove string error
  | BrokenLink string error
  | RemoveBrokenLink string
  | CouldNotRemoveBrokenLink string error
  | SymlinkOK string
  | ErrorWalkingThePath string error
  | Summary string nat
  | ExecutionTime

text \<open>
  The calls the program itself makes to the operating system, each with the result it
  gave. What \<open>filepath.Walk\<close> reads on its own (its \<open>lstat\<close> and \<open>readDirNames\<close>) is
  in the tree below.
\<close>

datatype oscall =
    Stat string "error option"
  | Chdir string "error option"
  | Lstat string "error + FileMode"
  | EvalSymlinks string "error + string"
  | Remove string "error option"

subsection \<open>Command line, file system, state\<close>

record config =
  quiet :: bool
  delBrokenLinks :: bool
  delAllLinks :: bool
  argsNotParsed :: "string list"

text \<open>
  What the operating system answers for one non-directory entry: the result of
  \<open>os.Lstat\<close> in the callback, of \<open>filepath.EvalSymlinks\<close> and of \<open>os.Remove\<close>.
\<close>

record entry =
  lstat_res :: "error + FileMode"
  eval_res :: "error + string"
  remove_res :: "error option"

text \<open>
  The tree as \<open>filepath.Walk\<close> meets it: a directory with its names in the order
  \<open>readDirNames\<close> returns them, a directory whose names cannot be read, an entry
  whose \<open>lstat\<close> fails in the walk, and a non-directory entry.
\<close>

datatype node =
    Dir "(string \<times> node) list"
  | DirUnreadable error
  | LstatFails error
  | NonDir entry

record os =
  stat_root :: "error option"
  chdir_root :: "error option"
  tree :: node

record state =
  nofErrors :: nat
  nofBrokenLinks :: nat
  nofLinksRemoved :: nat
  nofLinksInspected :: nat
  calls :: "oscall list"
  out :: "(stream \<times> msg) list"

definition init :: state where
  "init = \<lparr>nofErrors = 0, nofBrokenLinks = 0, nofLinksRemoved = 0, nofLinksInspected = 0,
     calls = [], out = []\<rparr>"

definition syscall :: "oscall \<Rightarrow> state \<Rightarrow> state" where
  "syscall c s = s\<lparr>calls := calls s @ [c]\<rparr>"

text \<open>\<open>fmt.Println\<close>, \<open>fmt.Printf\<close>: standard output.\<close>

definition fmt_Printf :: "msg \<Rightarrow> state \<Rightarrow> state" where
  "fmt_Printf m s = s\<lparr>out := out s @ [(Stdout, m)]\<rparr>"

text \<open>\<open>fmt.Fprintf(os.Stderr, ...)\<close> and the default logger: standard error.\<close>

definition fmt_Fprintf_Stderr :: "msg \<Rightarrow> state \<Rightarrow> state" where
  "fmt_Fprintf_Stderr m s = s\<lparr>out := out s @ [(Stderr, m)]\<rparr>"

definition log_Printf :: "msg \<Rightarrow> state \<Rightarrow> state" where
  "log_Printf m s = s\<lparr>out := out s @ [(Stderr, m)]\<rparr>"

text \<open>\<open>debug\<close>: the global \<open>beQuiet\<close> holds the \<open>-quiet\<close> flag.\<close>

definition debug :: "config \<Rightarrow> msg \<Rightarrow> state \<Rightarrow> state" where
  "debug cfg text s = (if \<not> quiet cfg then log_Printf text s else s)"

text \<open>
  \<open>fs.Usage\<close>: the header, the examples and the version line go to standard output
  (\<open>fmt.Println\<close>, \<open>fmt.Printf\<close>), the flag defaults to the flag set's output, which
  is standard error.
\<close>

definition Usage :: "state \<Rightarrow> state" where
  "Usage s =
     fmt_Printf VersionLine
       (fmt_Printf UsageExamples
         (fmt_Fprintf_Stderr PrintDefaults
           (fmt_Printf UsageHeader s)))"

subsection \<open>The callback of the walk\<close>

text \<open>
  The callback's arguments \<open>(path, info, err)\<close> come in three shapes: \<open>err\<close> is not
  nil; \<open>info.IsDir()\<close>; a non-directory entry, for which the callback goes on to ask
  the operating system.
\<close>

datatype visit = WalkErr error | IsDir | Entry entry

text \<open>
  What the callback does: return nil, return an error, or end the process
  (\<open>log.Fatalf\<close>, exit status 1).
\<close>

datatype ret = Nil | Error error | Exited

fun walkFn :: "config \<Rightarrow> string \<Rightarrow> visit \<Rightarrow> state \<Rightarrow> ret \<times> state" where
  "walkFn cfg path (WalkErr err) s = (Error err, fmt_Printf (PreventPanic path err) s)"
| "walkFn cfg path IsDir s = (Nil, debug cfg (VisitedDir path) s)"
| "walkFn cfg path (Entry e) s =
     (let s = syscall (Lstat path (lstat_res e)) s in
      case lstat_res e of
        Inl err \<Rightarrow> (Exited, log_Printf (CouldNotGetStat path err) s)
      | Inr mode \<Rightarrow>
          if mode AND ModeSymlink \<noteq> 0 then
            let s = s\<lparr>nofLinksInspected := nofLinksInspected s + 1\<rparr> in
            if delAllLinks cfg then
              let s = log_Printf (RemoveLink path) s;
                  s = syscall (Remove path (remove_res e)) s;
                  s = (case remove_res e of
                         Some err \<Rightarrow>
                           log_Printf (CouldNotRemove path err)
                             (s\<lparr>nofErrors := nofErrors s + 1\<rparr>)
                       | None \<Rightarrow> s);
                  s = s\<lparr>nofLinksRemoved := nofLinksRemoved s + 1\<rparr>
              in (Nil, s)
            else
              let s = syscall (EvalSymlinks path (eval_res e)) s in
              case eval_res e of
                Inl err \<Rightarrow>
                  let s = log_Printf (BrokenLink path err) s;
                      s = s\<lparr>nofBrokenLinks := nofBrokenLinks s + 1\<rparr>
                  in
                  if delBrokenLinks cfg then
                    let s = log_Printf (RemoveBrokenLink path) s;
                        s = syscall (Remove path (remove_res e)) s;
                        s = (case remove_res e of
                               Some err \<Rightarrow>
                                 log_Printf (CouldNotRemoveBrokenLink path err)
                                   (s\<lparr>nofErrors := nofErrors s + 1\<rparr>)
                             | None \<Rightarrow> s);
                        s = s\<lparr>nofLinksRemoved := nofLinksRemoved s + 1\<rparr>
                    in (Nil, s)
                  else (Nil, s)
              | Inr resolvedPath \<Rightarrow> (Nil, debug cfg (SymlinkOK resolvedPath) s)
          else (Nil, s))"

subsection \<open>The walk\<close>

text \<open>
  \<open>filepath.Join\<close> on a directory path of the walk and a name read from that
  directory: the result is cleaned, so the leading \<open>./\<close> of the root goes.
\<close>

definition Join :: "string \<Rightarrow> string \<Rightarrow> string" where
  "Join path name = (if path = ''.'' then name else path @ ''/'' @ name)"

text \<open>
  \<open>filepath.Walk\<close> with this callback. The callback never returns \<open>SkipDir\<close>, so every
  error it returns ends the walk: \<open>walk\<close> calls it on the entry and, in a directory
  whose names were read, goes through the names in order (\<open>walk_names\<close>, the
  \<open>for\<close> loop) until a call returns an error or ends the process.
\<close>

fun walk :: "config \<Rightarrow> string \<Rightarrow> node \<Rightarrow> state \<Rightarrow> ret \<times> state"
  and walk_names :: "config \<Rightarrow> string \<Rightarrow> (string \<times> node) list \<Rightarrow> state \<Rightarrow> ret \<times> state"
where
  "walk cfg path (LstatFails err) s = walkFn cfg path (WalkErr err) s"
| "walk cfg path (NonDir e) s = walkFn cfg path (Entry e) s"
| "walk cfg path (DirUnreadable err) s = walkFn cfg path (WalkErr err) s"
| "walk cfg path (Dir names) s =
     (case walkFn cfg path IsDir s of
        (Nil, s1) \<Rightarrow> walk_names cfg path names s1
      | (err1, s1) \<Rightarrow> (err1, s1))"
| "walk_names cfg path [] s = (Nil, s)"
| "walk_names cfg path ((name, n) # names) s =
     (case walk cfg (Join path name) n s of
        (Nil, s1) \<Rightarrow> walk_names cfg path names s1
      | (err, s1) \<Rightarrow> (err, s1))"

subsection \<open>main\<close>

text \<open>The state in which \<open>main\<close> starts the walk, once the root is entered.\<close>

definition enter_root :: "config \<Rightarrow> os \<Rightarrow> string \<Rightarrow> state" where
  "enter_root cfg w rootDir =
     debug cfg (RootDir rootDir)
       (syscall (Chdir rootDir (chdir_root w))
         (syscall (Stat rootDir (stat_root w)) init))"

text \<open>The four summary lines and the execution time.\<close>

definition report :: "state \<Rightarrow> state" where
  "report s =
     log_Printf ExecutionTime
       (log_Printf (Summary ''errors:'' (nofErrors s))
         (log_Printf (Summary ''broken links:'' (nofBrokenLinks s))
           (log_Printf (Summary ''removed links:'' (nofLinksRemoved s))
             (log_Printf (Summary ''inspected links:'' (nofLinksInspected s)) s))))"

text \<open>\<open>main\<close> returns the exit status and the state at the exit.\<close>

definition main :: "config \<Rightarrow> os \<Rightarrow> nat \<times> state" where
  "main cfg w =
     (if length (argsNotParsed cfg) > 1 then
        (1, Usage (fmt_Fprintf_Stderr (UnknownArguments (argsNotParsed cfg)) init))
      else if length (argsNotParsed cfg) < 1 then
        (1, Usage (fmt_Fprintf_Stderr NoRootPathGiven init))
      else if delBrokenLinks cfg \<and> delAllLinks cfg then
        (1, Usage (fmt_Fprintf_Stderr FlagsNotAllowedTogether init))
      else
        let rootDir = hd (argsNotParsed cfg) in
        if IsNotExist (stat_root w) then
          (1, log_Printf (PathDoesNotExist rootDir)
                (syscall (Stat rootDir (stat_root w)) init))
        else
          case chdir_root w of
            Some err \<Rightarrow>
              (1, log_Printf (CouldNotChangeToRootDir rootDir err)
                    (syscall (Chdir rootDir (chdir_root w))
                      (syscall (Stat rootDir (stat_root w)) init)))
          | None \<Rightarrow>
              (case walk cfg ''.'' (tree w) (enter_root cfg w rootDir) of
                 (Nil, s) \<Rightarrow> (0, report s)
               | (Error err, s) \<Rightarrow> (1, log_Printf (ErrorWalkingThePath rootDir err) s)
               | (Exited, s) \<Rightarrow> (1, s)))"

subsection \<open>The walk as a sequence of callback invocations\<close>

text \<open>
  The entries of a tree in the order the walk reaches them, each with the arguments the
  callback gets for it, and the callback run over such a sequence until it returns an
  error or ends the process. \<open>walk_run_events\<close> below shows that this is the walk;
  a prefix of the sequence is then a point during the run.
\<close>

fun events :: "string \<Rightarrow> node \<Rightarrow> (string \<times> visit) list"
  and events_names :: "string \<Rightarrow> (string \<times> node) list \<Rightarrow> (string \<times> visit) list"
where
  "events path (LstatFails err) = [(path, WalkErr err)]"
| "events path (NonDir e) = [(path, Entry e)]"
| "events path (DirUnreadable err) = [(path, WalkErr err)]"
| "events path (Dir names) = (path, IsDir) # events_names path names"
| "events_names path [] = []"
| "events_names path ((name, n) # names) = events (Join path name) n @ events_names path names"

fun run_events :: "config \<Rightarrow> (string \<times> visit) list \<Rightarrow> state \<Rightarrow> ret \<times> state" where
  "run_events cfg [] s = (Nil, s)"
| "run_events cfg ((path, v) # evs) s =
     (case walkFn cfg path v s of
        (Nil, s1) \<Rightarrow> run_events cfg evs s1
      | (err, s1) \<Rightarrow> (err, s1))"

text \<open>The state after the first \<open>k\<close> callback invocations of a run that reaches the walk.\<close>

definition state_after :: "config \<Rightarrow> os \<Rightarrow> nat \<Rightarrow> state" where
  "state_after cfg w k =
     snd (run_events cfg (take k (events ''.'' (tree w)))
            (enter_root cfg w (hd (argsNotParsed cfg))))"

subsection \<open>Vocabulary of the properties\<close>

text \<open>
  An entry is a symbolic link when its link-aware status says so, and a broken one when
  the resolution of its target fails.
\<close>

definition is_symlink :: "entry \<Rightarrow> bool" where
  "is_symlink e =
     (case lstat_res e of Inl err \<Rightarrow> False | Inr mode \<Rightarrow> mode AND ModeSymlink \<noteq> 0)"

definition is_broken :: "entry \<Rightarrow> bool" where
  "is_broken e = (case eval_res e of Inl err \<Rightarrow> True | Inr resolvedPath \<Rightarrow> False)"

fun symlinks :: "(string \<times> visit) list \<Rightarrow> (string \<times> entry) list" where
  "symlinks [] = []"
| "symlinks ((path, Entry e) # evs) =
     (if is_symlink e then (path, e) # symlinks evs else symlinks evs)"
| "symlinks ((path, v) # evs) = symlinks evs"

text \<open>The symbolic links of a tree, with their paths, and the broken ones among them.\<close>

definition links :: "node \<Rightarrow> (string \<times> entry) list" where
  "links t = symlinks (events ''.'' t)"

definition broken_links :: "node \<Rightarrow> (string \<times> entry) list" where
  "broken_links t = filter (\<lambda>(path, e). is_broken e) (links t)"

text \<open>
  What a run did to the file system, read off its calls: the paths on which
  \<open>os.Remove\<close> was called, those it removed, and those whose target was resolved.
  \<open>os.Remove\<close> is the only call of the program that changes the file system.
\<close>

fun remove_call :: "oscall \<Rightarrow> string list" where
  "remove_call (Remove path r) = [path]"
| "remove_call c = []"

fun remove_done :: "oscall \<Rightarrow> string list" where
  "remove_done (Remove path None) = [path]"
| "remove_done c = []"

fun eval_call :: "oscall \<Rightarrow> string list" where
  "eval_call (EvalSymlinks path r) = [path]"
| "eval_call c = []"

definition attempted :: "state \<Rightarrow> string list" where
  "attempted s = concat (map remove_call (calls s))"

definition removed :: "state \<Rightarrow> string list" where
  "removed s = concat (map remove_done (calls s))"

definition resolved :: "state \<Rightarrow> string list" where
  "resolved s = concat (map eval_call (calls s))"

text \<open>The symbolic links of the tree that are still there after the run.\<close>

definition remaining_links :: "node \<Rightarrow> state \<Rightarrow> string list" where
  "remaining_links t s = filter (\<lambda>path. path \<notin> set (removed s)) (map fst (links t))"

text \<open>
  The relation between the counters and the calls made so far: a link is inspected
  when \<open>os.Lstat\<close> answers with the symbolic-link bit, an error is a removal that failed.
\<close>

fun inspected_call :: "oscall \<Rightarrow> bool" where
  "inspected_call (Lstat path (Inr mode)) = (mode AND ModeSymlink \<noteq> 0)"
| "inspected_call c = False"

fun failed_remove :: "oscall \<Rightarrow> bool" where
  "failed_remove (Remove path (Some err)) = True"
| "failed_remove c = False"

definition counters_ok :: "state \<Rightarrow> bool" where
  "counters_ok s \<longleftrightarrow>
     nofLinksInspected s = length (filter inspected_call (calls s)) \<and>
     nofLinksRemoved s \<le> nofLinksInspected s \<and>
     nofBrokenLinks s \<le> nofLinksInspected s"

definition errors_ok :: "state \<Rightarrow> bool" where
  "errors_ok s \<longleftrightarrow> nofErrors s = length (filter failed_remove (calls s))"

text \<open>Two states that differ in the lines written only.\<close>

definition agree :: "state \<Rightarrow> state \<Rightarrow> bool" where
  "agree s s' \<longleftrightarrow>
     calls s' = calls s \<and> nofErrors s' = nofErrors s \<and> nofBrokenLinks s' = nofBrokenLinks s \<and>
     nofLinksRemoved s' = nofLinksRemoved s \<and> nofLinksInspected s' = nofLinksInspected s"

subsection \<open>Example runs\<close>

text \<open>
  The example of the specification: a root with \<open>a -> b\<close> where \<open>b\<close> is missing,
  \<open>c -> d\<close>, and the regular file \<open>d\<close>. Modes as \<open>os.Lstat\<close> gives them:
  \<open>Lrwxrwxrwx\<close> and \<open>-rw-r--r--\<close>.
\<close>

definition symlink_mode :: FileMode where
  "symlink_mode = ModeSymlink OR 511"

definition regular_mode :: FileMode where
  "regular_mode = 420"

definition link_a :: entry where
  "link_a = \<lparr>lstat_res = Inr symlink_mode, eval_res = Inl ErrNotExist, remove_res = None\<rparr>"

definition link_c :: entry where
  "link_c = \<lparr>lstat_res = Inr symlink_mode, eval_res = Inr ''d'', remove_res = None\<rparr>"

definition file_d :: entry where
  "file_d = \<lparr>lstat_res = Inr regular_mode, eval_res = Inr ''d'', remove_res = None\<rparr>"

definition example_root :: os where
  "example_root = \<lparr>stat_root = None, chdir_root = None,
     tree = Dir [(''a'', NonDir link_a), (''c'', NonDir link_c), (''d'', NonDir file_d)]\<rparr>"

text \<open>A root in which the broken link \<open>a\<close> cannot be removed.\<close>

definition locked_root :: os where
  "locked_root = \<lparr>stat_root = None, chdir_root = None,
     tree = Dir [(''a'', NonDir (link_a\<lparr>remove_res := Some ErrPermission\<rparr>))]\<rparr>"

text \<open>A root in which \<open>a\<close> is gone when the callback asks for its status.\<close>

definition gone :: entry where
  "gone = \<lparr>lstat_res = Inl ErrNotExist, eval_res = Inl ErrNotExist,
     remove_res = Some ErrNotExist\<rparr>"

definition vanishing_root :: os where
  "vanishing_root = \<lparr>stat_root = None, chdir_root = None,
     tree = Dir [(''a'', NonDir gone), (''c'', NonDir link_c)]\<rparr>"

text \<open>A root path that does not exist.\<close>

definition missing_root :: os where
  "missing_root = \<lparr>stat_root = Some ErrNotExist, chdir_root = Some ErrNotExist,
     tree = LstatFails ErrNotExist\<rparr>"

text \<open>The command lines \<open>root\<close>, \<open>-delete-broken root\<close>, \<open>-delete-all root\<close> and both flags.\<close>

definition report_only :: config where
  "report_only = \<lparr>quiet = False, delBrokenLinks = False, delAllLinks = False,
     argsNotParsed = [''root'']\<rparr>"

definition delete_broken :: config where
  "delete_broken = \<lparr>quiet = False, delBrokenLinks = True, delAllLinks = False,
     argsNotParsed = [''root'']\<rparr>"

definition delete_all :: config where
  "delete_all = \<lparr>quiet = False, delBrokenLinks = False, delAllLinks = True,
     argsNotParsed = [''root'']\<rparr>"

definition both_flags :: config where
  "both_flags = \<lparr>quiet = False, delBrokenLinks = True, delAllLinks = True,
     argsNotParsed = [''root'']\<rparr>"

section \<open>Properties of the walk and of the callback\<close>

declare walkFn.simps [simp del]

subsection \<open>The walk is the callback run over the entries in order\<close>

lemma run_events_append:
  "run_events cfg (xs @ ys) s =
     (case run_events cfg xs s of (Nil, s1) \<Rightarrow> run_events cfg ys s1 | (err, s1) \<Rightarrow> (err, s1))"
proof (induction xs arbitrary: s)
  case Nil
  show ?case by simp
next
  case (Cons x xs)
  obtain p v where x: "x = (p, v)" by (cases x)
  obtain r s1 where w: "walkFn cfg p v s = (r, s1)" by (cases "walkFn cfg p v s")
  show ?case using Cons.IH [of s1] by (cases r) (simp_all add: x w)
qed

lemma run_events_single: "run_events cfg [(path, v)] s = walkFn cfg path v s"
  by (simp split: prod.splits ret.splits)

lemma walk_run_events:
  "walk cfg path n s = run_events cfg (events path n) s"
  "walk_names cfg path names s = run_events cfg (events_names path names) s"
proof (induction cfg path n s and cfg path names s rule: walk_walk_names.induct)
  case (4 cfg path names s)
  then show ?case by (simp add: walkFn.simps)
next
  case (6 cfg path name n names s)
  obtain r s1 where w: "walk cfg (Join path name) n s = (r, s1)"
    by (cases "walk cfg (Join path name) n s")
  then have e: "run_events cfg (events (Join path name) n) s = (r, s1)"
    using 6(1) by simp
  show ?case
  proof (cases r)
    case Nil
    with 6(2) [of r s1] w e show ?thesis by (simp add: run_events_append)
  qed (simp_all add: w e run_events_append)
qed (simp_all add: run_events_single del: run_events.simps(2))

subsection \<open>One callback invocation\<close>

text \<open>
  What one invocation of the callback does to the counters and to the calls, under each
  policy. Each fact is read off the callback by unfolding it.
\<close>

lemmas walkFn_unfold =
  walkFn.simps Let_def syscall_def log_Printf_def fmt_Printf_def debug_def
  is_symlink_def is_broken_def attempted_def removed_def resolved_def

lemma symlinks_Cons: "symlinks (x # evs) = symlinks [x] @ symlinks evs"
proof -
  obtain p v where "x = (p, v)" by (cases x)
  then show ?thesis by (cases v) simp_all
qed

lemma symlinks_iff:
  "(path, e) \<in> set (symlinks evs) \<longleftrightarrow> (path, Entry e) \<in> set evs \<and> is_symlink e"
  by (induction evs rule: symlinks.induct) auto

lemma walkFn_noflags:
  assumes "\<not> delAllLinks cfg" "\<not> delBrokenLinks cfg" "walkFn cfg path v s = (Nil, s')"
  shows "nofLinksInspected s' = nofLinksInspected s + length (symlinks [(path, v)])"
    and "nofBrokenLinks s' =
           nofBrokenLinks s + length (filter (\<lambda>(p, e). is_broken e) (symlinks [(path, v)]))"
    and "nofLinksRemoved s' = nofLinksRemoved s"
    and "nofErrors s' = nofErrors s"
    and "attempted s' = attempted s"
  using assms
  by (cases v; auto simp: walkFn_unfold split: sum.splits if_splits option.splits)+

lemma walkFn_delAll:
  assumes "delAllLinks cfg" "walkFn cfg path v s = (Nil, s')"
  shows "nofLinksInspected s' = nofLinksInspected s + length (symlinks [(path, v)])"
    and "nofLinksRemoved s' = nofLinksRemoved s + length (symlinks [(path, v)])"
    and "nofBrokenLinks s' = nofBrokenLinks s"
    and "resolved s' = resolved s"
    and "attempted s' = attempted s @ map fst (symlinks [(path, v)])"
  using assms
  by (cases v; auto simp: walkFn_unfold split: sum.splits if_splits option.splits)+

lemma walkFn_delAll_ok:
  assumes "delAllLinks cfg" "walkFn cfg path v s = (Nil, s')"
    and "\<forall>(p, e) \<in> set (symlinks [(path, v)]). remove_res e = None"
  shows "removed s' = removed s @ map fst (symlinks [(path, v)])"
    and "nofErrors s' = nofErrors s"
  using assms
  by (cases v; auto simp: walkFn_unfold split: sum.splits if_splits option.splits)+

lemma walkFn_delBroken:
  assumes "delBrokenLinks cfg" "\<not> delAllLinks cfg" "walkFn cfg path v s = (Nil, s')"
  shows "nofLinksInspected s' = nofLinksInspected s + length (symlinks [(path, v)])"
    and "nofBrokenLinks s' =
           nofBrokenLinks s + length (filter (\<lambda>(p, e). is_broken e) (symlinks [(path, v)]))"
    and "nofLinksRemoved s' =
           nofLinksRemoved s + length (filter (\<lambda>(p, e). is_broken e) (symlinks [(path, v)]))"
  using assms
  by (cases v; auto simp: walkFn_unfold split: sum.splits if_splits option.splits)+

lemma walkFn_delBroken_attempted:
  assumes "delBrokenLinks cfg" "\<not> delAllLinks cfg" "walkFn cfg path v s = (r, s')"
  shows "attempted s' =
           attempted s @ map fst (filter (\<lambda>(p, e). is_broken e) (symlinks [(path, v)]))"
  using assms
  by (cases v; auto simp: walkFn_unfold split: sum.splits if_splits option.splits)

lemma walkFn_delBroken_ok:
  assumes "delBrokenLinks cfg" "\<not> delAllLinks cfg" "walkFn cfg path v s = (Nil, s')"
    and "\<forall>(p, e) \<in> set (symlinks [(path, v)]). is_broken e \<longrightarrow> remove_res e = None"
  shows "removed s' =
           removed s @ map fst (filter (\<lambda>(p, e). is_broken e) (symlinks [(path, v)]))"
    and "nofErrors s' = nofErrors s"
  using assms
  by (cases v; auto simp: walkFn_unfold split: sum.splits if_splits option.splits)+

lemma walkFn_attempted_links:
  assumes "walkFn cfg path v s = (r, s')"
  shows "set (attempted s') \<subseteq> set (attempted s) \<union> fst ` set (symlinks [(path, v)])"
    and "\<not> delAllLinks cfg \<Longrightarrow> \<not> delBrokenLinks cfg \<Longrightarrow> attempted s' = attempted s"
  using assms
  by (cases v; auto simp: walkFn_unfold split: sum.splits if_splits option.splits)+

lemma walkFn_counters_ok:
  assumes "walkFn cfg path v s = (r, s')" "counters_ok s"
  shows "counters_ok s'"
  using assms unfolding counters_ok_def
  by (cases v; auto simp: walkFn_unfold split: sum.splits if_splits option.splits)

lemma walkFn_fatal:
  "walkFn cfg path (WalkErr err) s \<noteq> (Nil, s')"
  "lstat_res e = Inl err \<Longrightarrow> walkFn cfg path (Entry e) s \<noteq> (Nil, s')"
  by (auto simp: walkFn_unfold)

lemma walkFn_inspected:
  assumes "walkFn cfg path v s = (r, s')"
  shows "nofLinksInspected s' = nofLinksInspected s + length (symlinks [(path, v)])"
  using assms
  by (cases v; auto simp: walkFn_unfold split: sum.splits if_splits option.splits)

lemma walkFn_errors_ok:
  assumes "walkFn cfg path v s = (r, s')" "errors_ok s"
  shows "errors_ok s'"
  using assms unfolding errors_ok_def
  by (cases v; auto simp: walkFn_unfold split: sum.splits if_splits option.splits)

subsection \<open>A whole walk\<close>

text \<open>
  The same facts for a sequence of invocations, by induction on the sequence with the
  state generalised.
\<close>

lemma run_events_Cons_Nil:
  assumes "run_events cfg ((path, v) # evs) s = (Nil, s')"
  obtains s1 where "walkFn cfg path v s = (Nil, s1)" "run_events cfg evs s1 = (Nil, s')"
proof -
  obtain r s1 where w: "walkFn cfg path v s = (r, s1)" by (cases "walkFn cfg path v s")
  with assms have "r = Nil" "run_events cfg evs s1 = (Nil, s')" by (cases r; simp)+
  with w that show ?thesis by simp
qed

lemma run_events_Cons_cases:
  assumes "run_events cfg ((path, v) # evs) s = (r, s')"
  obtains (continue) s1 where "walkFn cfg path v s = (Nil, s1)" "run_events cfg evs s1 = (r, s')"
  | (stop) "r \<noteq> Nil" "walkFn cfg path v s = (r, s')"
proof -
  obtain r1 s1 where w: "walkFn cfg path v s = (r1, s1)" by (cases "walkFn cfg path v s")
  show ?thesis
  proof (cases r1)
    case Nil
    with assms w continue show ?thesis by simp
  next
    case (Error e)
    with assms w stop show ?thesis by auto
  next
    case Exited
    with assms w stop show ?thesis by auto
  qed
qed

lemma run_events_noflags:
  assumes "\<not> delAllLinks cfg" "\<not> delBrokenLinks cfg"
  shows "run_events cfg evs s = (Nil, s') \<Longrightarrow>
         nofLinksInspected s' = nofLinksInspected s + length (symlinks evs) \<and>
         nofBrokenLinks s' =
           nofBrokenLinks s + length (filter (\<lambda>(p, e). is_broken e) (symlinks evs)) \<and>
         nofLinksRemoved s' = nofLinksRemoved s \<and>
         nofErrors s' = nofErrors s \<and>
         attempted s' = attempted s"
proof (induction evs arbitrary: s)
  case Nil
  then show ?case by simp
next
  case (Cons x evs)
  obtain p v where x: "x = (p, v)" by (cases x)
  obtain r s1 where w: "walkFn cfg p v s = (r, s1)" by (cases "walkFn cfg p v s")
  from Cons.prems have r: "r = Nil" and rest: "run_events cfg evs s1 = (Nil, s')"
    by (cases r; simp add: x w)+
  note step = walkFn_noflags [OF assms w [unfolded r]]
  show ?case
    using Cons.IH [OF rest] step
    by (simp add: x symlinks_Cons [of "(p, v)" evs] del: symlinks.simps)
qed

lemma run_events_delAll:
  assumes "delAllLinks cfg"
  shows "run_events cfg evs s = (Nil, s') \<Longrightarrow>
         nofLinksInspected s' = nofLinksInspected s + length (symlinks evs) \<and>
         nofLinksRemoved s' = nofLinksRemoved s + length (symlinks evs) \<and>
         nofBrokenLinks s' = nofBrokenLinks s \<and>
         resolved s' = resolved s \<and>
         attempted s' = attempted s @ map fst (symlinks evs)"
proof (induction evs arbitrary: s)
  case Nil
  then show ?case by simp
next
  case (Cons x evs)
  obtain p v where x: "x = (p, v)" by (cases x)
  from Cons.prems obtain s1 where
    w: "walkFn cfg p v s = (Nil, s1)" and rest: "run_events cfg evs s1 = (Nil, s')"
    unfolding x by (rule run_events_Cons_Nil)
  show ?case
    using Cons.IH [OF rest] walkFn_delAll [OF assms w]
    by (simp add: x symlinks_Cons [of "(p, v)" evs] del: symlinks.simps)
qed

lemma run_events_delAll_ok:
  assumes "delAllLinks cfg"
  shows "run_events cfg evs s = (Nil, s') \<Longrightarrow>
         \<forall>(p, e) \<in> set (symlinks evs). remove_res e = None \<Longrightarrow>
         removed s' = removed s @ map fst (symlinks evs) \<and> nofErrors s' = nofErrors s"
proof (induction evs arbitrary: s)
  case Nil
  then show ?case by simp
next
  case (Cons x evs)
  obtain p v where x: "x = (p, v)" by (cases x)
  from Cons.prems(1) obtain s1 where
    w: "walkFn cfg p v s = (Nil, s1)" and rest: "run_events cfg evs s1 = (Nil, s')"
    unfolding x by (rule run_events_Cons_Nil)
  from Cons.prems(2) have
    here: "\<forall>(p, e) \<in> set (symlinks [(p, v)]). remove_res e = None" and
    later: "\<forall>(p, e) \<in> set (symlinks evs). remove_res e = None"
    unfolding x symlinks_Cons [of "(p, v)" evs] by auto
  show ?case
    using Cons.IH [OF rest later] walkFn_delAll_ok [OF assms w here]
    by (simp add: x symlinks_Cons [of "(p, v)" evs] del: symlinks.simps)
qed

lemma run_events_delBroken:
  assumes "delBrokenLinks cfg" "\<not> delAllLinks cfg"
  shows "run_events cfg evs s = (Nil, s') \<Longrightarrow>
         nofLinksInspected s' = nofLinksInspected s + length (symlinks evs) \<and>
         nofBrokenLinks s' =
           nofBrokenLinks s + length (filter (\<lambda>(p, e). is_broken e) (symlinks evs)) \<and>
         nofLinksRemoved s' =
           nofLinksRemoved s + length (filter (\<lambda>(p, e). is_broken e) (symlinks evs)) \<and>
         attempted s' =
           attempted s @ map fst (filter (\<lambda>(p, e). is_broken e) (symlinks evs))"
proof (induction evs arbitrary: s)
  case Nil
  then show ?case by simp
next
  case (Cons x evs)
  obtain p v where x: "x = (p, v)" by (cases x)
  from Cons.prems obtain s1 where
    w: "walkFn cfg p v s = (Nil, s1)" and rest: "run_events cfg evs s1 = (Nil, s')"
    unfolding x by (rule run_events_Cons_Nil)
  show ?case
    using Cons.IH [OF rest] walkFn_delBroken [OF assms w] walkFn_delBroken_attempted [OF assms w]
    by (simp add: x symlinks_Cons [of "(p, v)" evs] del: symlinks.simps)
qed

lemma run_events_delBroken_ok:
  assumes "delBrokenLinks cfg" "\<not> delAllLinks cfg"
  shows "run_events cfg evs s = (Nil, s') \<Longrightarrow>
         \<forall>(p, e) \<in> set (symlinks evs). is_broken e \<longrightarrow> remove_res e = None \<Longrightarrow>
         removed s' = removed s @ map fst (filter (\<lambda>(p, e). is_broken e) (symlinks evs)) \<and>
         nofErrors s' = nofErrors s"
proof (induction evs arbitrary: s)
  case Nil
  then show ?case by simp
next
  case (Cons x evs)
  obtain p v where x: "x = (p, v)" by (cases x)
  from Cons.prems(1) obtain s1 where
    w: "walkFn cfg p v s = (Nil, s1)" and rest: "run_events cfg evs s1 = (Nil, s')"
    unfolding x by (rule run_events_Cons_Nil)
  from Cons.prems(2) have
    here: "\<forall>(p, e) \<in> set (symlinks [(p, v)]). is_broken e \<longrightarrow> remove_res e = None" and
    later: "\<forall>(p, e) \<in> set (symlinks evs). is_broken e \<longrightarrow> remove_res e = None"
    unfolding x symlinks_Cons [of "(p, v)" evs] by auto
  show ?case
    using Cons.IH [OF rest later] walkFn_delBroken_ok [OF assms w here]
    by (simp add: x symlinks_Cons [of "(p, v)" evs] del: symlinks.simps)
qed

lemma run_events_delBroken_attempted:
  assumes "delBrokenLinks cfg" "\<not> delAllLinks cfg"
  shows "run_events cfg evs s = (r, s') \<Longrightarrow>
         set (attempted s') \<subseteq>
           set (attempted s) \<union> fst ` set (filter (\<lambda>(p, e). is_broken e) (symlinks evs))"
proof (induction evs arbitrary: s)
  case Nil
  then show ?case by simp
next
  case (Cons x evs)
  obtain p v where x: "x = (p, v)" by (cases x)
  from Cons.prems [unfolded x] show ?case
  proof (cases rule: run_events_Cons_cases)
    case (continue s1)
    show ?thesis
      using Cons.IH [OF continue(2)] walkFn_delBroken_attempted [OF assms continue(1)]
      by (auto simp add: x symlinks_Cons [of "(p, v)" evs] simp del: symlinks.simps)
  next
    case stop
    show ?thesis
      using walkFn_delBroken_attempted [OF assms stop(2)]
      by (auto simp add: x symlinks_Cons [of "(p, v)" evs] simp del: symlinks.simps)
  qed
qed

lemma run_events_attempted_links:
  "run_events cfg evs s = (r, s') \<Longrightarrow>
     set (attempted s') \<subseteq> set (attempted s) \<union> fst ` set (symlinks evs) \<and>
     (\<not> delAllLinks cfg \<and> \<not> delBrokenLinks cfg \<longrightarrow> attempted s' = attempted s)"
proof (induction evs arbitrary: s)
  case Nil
  then show ?case by simp
next
  case (Cons x evs)
  obtain p v where x: "x = (p, v)" by (cases x)
  have split: "fst ` set (symlinks (x # evs)) =
                 fst ` set (symlinks [(p, v)]) \<union> fst ` set (symlinks evs)"
    by (simp add: x symlinks_Cons [of "(p, v)" evs] image_Un del: symlinks.simps)
  from Cons.prems [unfolded x] show ?case
  proof (cases rule: run_events_Cons_cases)
    case (continue s1)
    from Cons.IH [OF continue(2)] walkFn_attempted_links [OF continue(1)]
    show ?thesis unfolding split by auto
  next
    case stop
    from walkFn_attempted_links [OF stop(2)]
    show ?thesis unfolding split by auto
  qed
qed

lemma run_events_counters_ok:
  "counters_ok s \<Longrightarrow> counters_ok (snd (run_events cfg evs s))"
proof (induction evs arbitrary: s)
  case Nil
  then show ?case by simp
next
  case (Cons x evs)
  obtain p v where x: "x = (p, v)" by (cases x)
  obtain r s' where res: "run_events cfg ((p, v) # evs) s = (r, s')"
    by (cases "run_events cfg ((p, v) # evs) s")
  then show ?case
  proof (cases rule: run_events_Cons_cases)
    case (continue s1)
    from walkFn_counters_ok [OF continue(1) Cons.prems] have "counters_ok s1" .
    from Cons.IH [OF this] continue(2) res show ?thesis by (simp add: x)
  next
    case stop
    from walkFn_counters_ok [OF stop(2) Cons.prems] res show ?thesis by (simp add: x)
  qed
qed

lemma run_events_errors_ok:
  "errors_ok s \<Longrightarrow> errors_ok (snd (run_events cfg evs s))"
proof (induction evs arbitrary: s)
  case Nil
  then show ?case by simp
next
  case (Cons x evs)
  obtain p v where x: "x = (p, v)" by (cases x)
  obtain r s' where res: "run_events cfg ((p, v) # evs) s = (r, s')"
    by (cases "run_events cfg ((p, v) # evs) s")
  then show ?case
  proof (cases rule: run_events_Cons_cases)
    case (continue s1)
    from walkFn_errors_ok [OF continue(1) Cons.prems] have "errors_ok s1" .
    from Cons.IH [OF this] continue(2) res show ?thesis by (simp add: x)
  next
    case stop
    from walkFn_errors_ok [OF stop(2) Cons.prems] res show ?thesis by (simp add: x)
  qed
qed

lemma run_events_fatal:
  assumes "(path, WalkErr err) \<in> set evs \<or>
           (\<exists>e. (path, Entry e) \<in> set evs \<and> lstat_res e = Inl err)"
  shows "fst (run_events cfg evs s) \<noteq> Nil"
  using assms
proof (induction evs arbitrary: s)
  case Nil
  then show ?case by simp
next
  case (Cons x evs)
  obtain p v where x: "x = (p, v)" by (cases x)
  obtain r s' where res: "run_events cfg ((p, v) # evs) s = (r, s')"
    by (cases "run_events cfg ((p, v) # evs) s")
  then show ?case
  proof (cases rule: run_events_Cons_cases)
    case (continue s1)
    with Cons.prems walkFn_fatal have
      "(path, WalkErr err) \<in> set evs \<or>
       (\<exists>e. (path, Entry e) \<in> set evs \<and> lstat_res e = Inl err)"
      by (auto simp: x)
    from Cons.IH [OF this, of s1] continue(2) res show ?thesis by (simp add: x)
  next
    case stop
    with res show ?thesis by (simp add: x)
  qed
qed

lemma run_events_inspected:
  "run_events cfg evs s = (Nil, s') \<Longrightarrow>
     nofLinksInspected s' = nofLinksInspected s + length (symlinks evs)"
proof (induction evs arbitrary: s)
  case Nil
  then show ?case by simp
next
  case (Cons x evs)
  obtain p v where x: "x = (p, v)" by (cases x)
  from Cons.prems obtain s1 where
    w: "walkFn cfg p v s = (Nil, s1)" and rest: "run_events cfg evs s1 = (Nil, s')"
    unfolding x by (rule run_events_Cons_Nil)
  show ?case
    using Cons.IH [OF rest] walkFn_inspected [OF w]
    by (simp add: x symlinks_Cons [of "(p, v)" evs] del: symlinks.simps)
qed

lemma run_events_stops:
  assumes "\<And>s1. fst (walkFn cfg path v s1) \<noteq> Nil"
  shows "run_events cfg (before @ (path, v) # after) s = run_events cfg (before @ [(path, v)]) s"
proof -
  have here: "run_events cfg ((path, v) # after) s1 = run_events cfg [(path, v)] s1" for s1
  proof -
    obtain r s2 where w: "walkFn cfg path v s1 = (r, s2)" by (cases "walkFn cfg path v s1")
    with assms [of s1] show ?thesis by (cases r) simp_all
  qed
  show ?thesis
    by (simp only: run_events_append [of cfg before] here)
qed

subsection \<open>Runs of main\<close>

lemma agree_projections:
  assumes "agree s s'"
  shows "attempted s' = attempted s" "removed s' = removed s" "resolved s' = resolved s"
    "counters_ok s' = counters_ok s" "errors_ok s' = errors_ok s"
  using assms
  by (simp_all add: agree_def attempted_def removed_def resolved_def counters_ok_def
        errors_ok_def)

lemma enter_root_facts:
  "nofErrors (enter_root cfg w r) = 0" "nofBrokenLinks (enter_root cfg w r) = 0"
  "nofLinksRemoved (enter_root cfg w r) = 0" "nofLinksInspected (enter_root cfg w r) = 0"
  "attempted (enter_root cfg w r) = []" "removed (enter_root cfg w r) = []"
  "resolved (enter_root cfg w r) = []" "counters_ok (enter_root cfg w r)"
  "errors_ok (enter_root cfg w r)"
  by (simp_all add: enter_root_def init_def debug_def log_Printf_def syscall_def
        attempted_def removed_def resolved_def counters_ok_def errors_ok_def)

lemma main_cases [case_names early walked]:
  obtains
    (early) "fst (main cfg w) = 1" "counters_ok (snd (main cfg w))"
      "attempted (snd (main cfg w)) = []" "errors_ok (snd (main cfg w))"
  | (walked) r s where
      "walk cfg ''.'' (tree w) (enter_root cfg w (hd (argsNotParsed cfg))) = (r, s)"
      "agree s (snd (main cfg w))" "fst (main cfg w) = (if r = Nil then 0 else 1)"
      "\<not> (delBrokenLinks cfg \<and> delAllLinks cfg)"
proof -
  let ?start = "enter_root cfg w (hd (argsNotParsed cfg))"
  let ?early = "fst (main cfg w) = 1 \<and> counters_ok (snd (main cfg w)) \<and>
                attempted (snd (main cfg w)) = [] \<and> errors_ok (snd (main cfg w))"
  note quiet_simps = Let_def init_def Usage_def fmt_Printf_def fmt_Fprintf_Stderr_def
    log_Printf_def syscall_def counters_ok_def attempted_def errors_ok_def
  have "length (argsNotParsed cfg) > 1 \<or> length (argsNotParsed cfg) < 1 \<or>
        length (argsNotParsed cfg) = 1"
    by linarith
  then consider
    (many) "length (argsNotParsed cfg) > 1"
  | (none) "length (argsNotParsed cfg) < 1"
  | (both) "length (argsNotParsed cfg) = 1" "delBrokenLinks cfg \<and> delAllLinks cfg"
  | (missing) "length (argsNotParsed cfg) = 1" "\<not> (delBrokenLinks cfg \<and> delAllLinks cfg)"
      "IsNotExist (stat_root w)"
  | (chdir) err where "length (argsNotParsed cfg) = 1"
      "\<not> (delBrokenLinks cfg \<and> delAllLinks cfg)" "\<not> IsNotExist (stat_root w)"
      "chdir_root w = Some err"
  | (walks) "length (argsNotParsed cfg) = 1" "\<not> (delBrokenLinks cfg \<and> delAllLinks cfg)"
      "\<not> IsNotExist (stat_root w)" "chdir_root w = None"
    by (cases "chdir_root w") blast+
  then show ?thesis
  proof cases
    case many
    then have ?early by (simp add: main_def quiet_simps)
    with early show ?thesis by blast
  next
    case none
    then have ?early by (simp add: main_def quiet_simps)
    with early show ?thesis by blast
  next
    case both
    then have ?early by (simp add: main_def quiet_simps)
    with early show ?thesis by blast
  next
    case missing
    then have ?early by (simp add: main_def quiet_simps)
    with early show ?thesis by blast
  next
    case chdir
    then have ?early by (simp add: main_def quiet_simps)
    with early show ?thesis by blast
  next
    case walks
    obtain r s where wk: "walk cfg ''.'' (tree w) ?start = (r, s)"
      by (cases "walk cfg ''.'' (tree w) ?start")
    with walks have "agree s (snd (main cfg w)) \<and> fst (main cfg w) = (if r = Nil then 0 else 1)"
      by (cases r) (auto simp add: main_def Let_def agree_def report_def log_Printf_def)
    with walks wk walked show ?thesis by blast
  qed
qed

lemma main_completes:
  assumes "fst (main cfg w) = 0"
  obtains s where
    "run_events cfg (events ''.'' (tree w)) (enter_root cfg w (hd (argsNotParsed cfg))) = (Nil, s)"
    "agree s (snd (main cfg w))" "\<not> (delBrokenLinks cfg \<and> delAllLinks cfg)"
proof (cases cfg w rule: main_cases)
  case early
  with assms show ?thesis by simp
next
  case (walked r s)
  with assms have "r = Nil" by (simp split: if_splits)
  with walked that show ?thesis by (simp add: walk_run_events)
qed

lemma state_after_all:
  assumes "fst (main cfg w) = 0"
  shows "agree (state_after cfg w (length (events ''.'' (tree w)))) (snd (main cfg w))"
proof -
  from assms obtain s where
    "run_events cfg (events ''.'' (tree w)) (enter_root cfg w (hd (argsNotParsed cfg))) = (Nil, s)"
    "agree s (snd (main cfg w))"
    by (rule main_completes)
  then show ?thesis by (simp add: state_after_def)
qed

subsection \<open>Evaluating the example runs\<close>

lemma symlink_mode_bit: "symlink_mode AND ModeSymlink \<noteq> 0"
  by (simp add: symlink_mode_def ModeSymlink_def)

lemma regular_mode_bit: "regular_mode AND ModeSymlink = 0"
  by (simp add: regular_mode_def ModeSymlink_def)

lemmas run_unfold =
  main_def enter_root_def report_def init_def Join_def walkFn.simps Let_def syscall_def
  log_Printf_def fmt_Printf_def fmt_Fprintf_Stderr_def debug_def Usage_def IsNotExist_def
  symlink_mode_bit regular_mode_bit

lemmas example_defs =
  report_only_def delete_broken_def delete_all_def both_flags_def
  example_root_def locked_root_def vanishing_root_def missing_root_def
  link_a_def link_c_def file_d_def gone_def

lemmas spec_unfold =
  links_def broken_links_def remaining_links_def attempted_def removed_def resolved_def
  is_symlink_def is_broken_def

section \<open>The claims\<close>

text \<open>
  C1. For every symbolic link on which removal is attempted, under the delete-all or the
  delete-broken policy, the removed counter is incremented only when the removal
  succeeds; when it fails, the errors counter is incremented and the removed counter
  is not. The code increments \<open>nofLinksRemoved\<close> after the \<open>if err != nil\<close> block, on
  both paths: on a root whose only link cannot be removed, the run ends with nothing
  removed, one error, and one link counted as removed, under either policy.
\<close>

theorem failed_removal_counted_as_removed:
  "fst (main delete_all locked_root) = 0 \<and>
   removed (snd (main delete_all locked_root)) = [] \<and>
   nofErrors (snd (main delete_all locked_root)) = 1 \<and>
   nofLinksRemoved (snd (main delete_all locked_root)) = 1 \<and>
   fst (main delete_broken locked_root) = 0 \<and>
   removed (snd (main delete_broken locked_root)) = [] \<and>
   nofErrors (snd (main delete_broken locked_root)) = 1 \<and>
   nofLinksRemoved (snd (main delete_broken locked_root)) = 1"
  by (simp add: run_unfold example_defs spec_unfold)

text \<open>
  C2. On a tree with N symbolic links, B of them broken, a run with neither deletion
  flag that completes the walk ends with inspected = N, broken = B and removed = 0, and
  never calls \<open>os.Remove\<close>, the only call of the program that changes the file system.
\<close>

theorem report_run_counts:
  assumes "\<not> delBrokenLinks cfg" "\<not> delAllLinks cfg" "fst (main cfg w) = 0"
  shows "nofLinksInspected (snd (main cfg w)) = length (links (tree w)) \<and>
         nofBrokenLinks (snd (main cfg w)) = length (broken_links (tree w)) \<and>
         nofLinksRemoved (snd (main cfg w)) = 0 \<and>
         attempted (snd (main cfg w)) = []"
proof -
  from assms(3) obtain s where
    run: "run_events cfg (events ''.'' (tree w)) (enter_root cfg w (hd (argsNotParsed cfg))) =
            (Nil, s)"
    and fin: "agree s (snd (main cfg w))"
    by (rule main_completes)
  from run_events_noflags [OF assms(2) assms(1) run] fin agree_projections(1) [OF fin]
  show ?thesis
    by (simp add: enter_root_facts links_def broken_links_def agree_def)
qed

theorem report_run_counts_witness:
  "nofLinksInspected (snd (main report_only example_root)) = 2 \<and>
   nofBrokenLinks (snd (main report_only example_root)) = 1 \<and>
   nofLinksRemoved (snd (main report_only example_root)) = 0 \<and>
   attempted (snd (main report_only example_root)) = []"
proof -
  have flags: "\<not> delBrokenLinks report_only" "\<not> delAllLinks report_only"
    by (simp_all add: report_only_def)
  have completes: "fst (main report_only example_root) = 0"
    by (simp add: run_unfold example_defs)
  have n: "length (links (tree example_root)) = 2"
    by (simp add: example_defs spec_unfold Join_def symlink_mode_bit regular_mode_bit)
  have b: "length (broken_links (tree example_root)) = 1"
    by (simp add: example_defs spec_unfold Join_def symlink_mode_bit regular_mode_bit)
  show ?thesis
    using report_run_counts [OF flags completes] by (simp add: n b)
qed

text \<open>
  C3. On a tree with N symbolic links, a run with \<open>-delete-all\<close> that completes the walk
  and in which no removal fails ends with inspected = N and removed = N; every link of
  the tree has been removed, none remains; no target has been resolved, and broken = 0.
\<close>

theorem delete_all_run:
  assumes "delAllLinks cfg" "fst (main cfg w) = 0"
    and "\<forall>(path, e) \<in> set (links (tree w)). remove_res e = None"
  shows "nofLinksInspected (snd (main cfg w)) = length (links (tree w)) \<and>
         nofLinksRemoved (snd (main cfg w)) = length (links (tree w)) \<and>
         removed (snd (main cfg w)) = map fst (links (tree w)) \<and>
         remaining_links (tree w) (snd (main cfg w)) = [] \<and>
         resolved (snd (main cfg w)) = [] \<and>
         nofBrokenLinks (snd (main cfg w)) = 0 \<and>
         nofErrors (snd (main cfg w)) = 0"
proof -
  from assms(2) obtain s where
    run: "run_events cfg (events ''.'' (tree w)) (enter_root cfg w (hd (argsNotParsed cfg))) =
            (Nil, s)"
    and fin: "agree s (snd (main cfg w))"
    by (rule main_completes)
  have ok: "\<forall>(path, e) \<in> set (symlinks (events ''.'' (tree w))). remove_res e = None"
    using assms(3) by (simp add: links_def)
  have gone: "removed (snd (main cfg w)) = map fst (links (tree w))"
    using run_events_delAll_ok [OF assms(1) run ok] agree_projections(2) [OF fin]
    by (simp add: enter_root_facts links_def)
  have counts: "nofLinksInspected (snd (main cfg w)) = length (links (tree w)) \<and>
         nofLinksRemoved (snd (main cfg w)) = length (links (tree w)) \<and>
         resolved (snd (main cfg w)) = [] \<and>
         nofBrokenLinks (snd (main cfg w)) = 0 \<and>
         nofErrors (snd (main cfg w)) = 0"
    using run_events_delAll [OF assms(1) run] run_events_delAll_ok [OF assms(1) run ok]
      agree_projections(3) [OF fin] fin
    by (simp add: enter_root_facts links_def agree_def)
  have "remaining_links (tree w) (snd (main cfg w)) = []"
    by (simp add: remaining_links_def gone)
  with gone counts show ?thesis by simp
qed

theorem delete_all_run_witness:
  "nofLinksInspected (snd (main delete_all example_root)) = 2 \<and>
   nofLinksRemoved (snd (main delete_all example_root)) = 2 \<and>
   removed (snd (main delete_all example_root)) = [''a'', ''c''] \<and>
   remaining_links (tree example_root) (snd (main delete_all example_root)) = [] \<and>
   resolved (snd (main delete_all example_root)) = [] \<and>
   nofBrokenLinks (snd (main delete_all example_root)) = 0 \<and>
   nofErrors (snd (main delete_all example_root)) = 0"
proof -
  have flag: "delAllLinks delete_all"
    by (simp add: delete_all_def)
  have completes: "fst (main delete_all example_root) = 0"
    by (simp add: run_unfold example_defs)
  have l: "links (tree example_root) = [(''a'', link_a), (''c'', link_c)]"
    by (simp add: example_root_def links_def Join_def is_symlink_def link_a_def link_c_def
          file_d_def symlink_mode_bit regular_mode_bit)
  have ok: "\<forall>(path, e) \<in> set (links (tree example_root)). remove_res e = None"
    by (simp add: l link_a_def link_c_def)
  show ?thesis
    using delete_all_run [OF flag completes ok] by (simp add: l)
qed

text \<open>
  C4, as stated: a run with \<open>-delete-broken\<close> removes exactly the links whose target
  resolution fails. It does not when \<open>os.Remove\<close> fails: on \<open>locked_root\<close> the walk
  completes, \<open>a\<close> is broken, and nothing is removed.
\<close>

theorem delete_broken_removal_fails:
  "fst (main delete_broken locked_root) = 0 \<and>
   map fst (broken_links (tree locked_root)) = [''a''] \<and>
   removed (snd (main delete_broken locked_root)) = []"
  by (simp add: run_unfold example_defs spec_unfold)

text \<open>
  C4, amended. In a run with \<open>-delete-broken\<close>, removal is attempted on links whose
  target resolution fails only, and on no valid link (paths being distinct); when the
  walk completes, it has been attempted on exactly the broken links, and broken is
  their number; when moreover no removal fails, exactly the broken links are removed
  and removed is their number. On the example, \<open>a\<close> is removed, \<open>c\<close> is left, and
  removed = 1, broken = 1.
\<close>

theorem delete_broken_run:
  assumes "delBrokenLinks cfg"
  shows "set (attempted (snd (main cfg w))) \<subseteq> fst ` set (broken_links (tree w)) \<and>
         (distinct (map fst (links (tree w))) \<longrightarrow>
            (\<forall>(path, e) \<in> set (links (tree w)).
               \<not> is_broken e \<longrightarrow> path \<notin> set (attempted (snd (main cfg w))))) \<and>
         (fst (main cfg w) = 0 \<longrightarrow>
            attempted (snd (main cfg w)) = map fst (broken_links (tree w)) \<and>
            nofBrokenLinks (snd (main cfg w)) = length (broken_links (tree w))) \<and>
         (fst (main cfg w) = 0 \<and>
          (\<forall>(path, e) \<in> set (broken_links (tree w)). remove_res e = None) \<longrightarrow>
            removed (snd (main cfg w)) = map fst (broken_links (tree w)) \<and>
            nofLinksRemoved (snd (main cfg w)) = length (broken_links (tree w)))"
proof -
  let ?s = "snd (main cfg w)"
  have only: "set (attempted ?s) \<subseteq> fst ` set (broken_links (tree w))"
  proof (cases cfg w rule: main_cases)
    case early
    then show ?thesis by simp
  next
    case (walked r s)
    with assms have "\<not> delAllLinks cfg" by simp
    from run_events_delBroken_attempted [OF assms this walked(1) [unfolded walk_run_events]]
      agree_projections(1) [OF walked(2)]
    show ?thesis by (simp add: enter_root_facts links_def broken_links_def)
  qed
  have valid: "path \<notin> set (attempted ?s)"
    if d: "distinct (map fst (links (tree w)))" and m: "(path, e) \<in> set (links (tree w))"
      and v: "\<not> is_broken e" for path e
  proof
    assume "path \<in> set (attempted ?s)"
    with only obtain e' where e': "(path, e') \<in> set (links (tree w))" "is_broken e'"
      by (auto simp: broken_links_def)
    from eq_key_imp_eq_value [OF d m e'(1)] e'(2) v show False by simp
  qed
  have complete: "attempted ?s = map fst (broken_links (tree w)) \<and>
      nofBrokenLinks ?s = length (broken_links (tree w))"
    if z: "fst (main cfg w) = 0"
  proof -
    from z obtain s where
      run: "run_events cfg (events ''.'' (tree w)) (enter_root cfg w (hd (argsNotParsed cfg))) =
              (Nil, s)"
      and fin: "agree s ?s" and "\<not> (delBrokenLinks cfg \<and> delAllLinks cfg)"
      by (rule main_completes)
    with assms have "\<not> delAllLinks cfg" by simp
    from run_events_delBroken [OF assms this run] agree_projections(1) [OF fin] fin
    show ?thesis by (simp add: enter_root_facts links_def broken_links_def agree_def)
  qed
  have success: "removed ?s = map fst (broken_links (tree w)) \<and>
      nofLinksRemoved ?s = length (broken_links (tree w))"
    if z: "fst (main cfg w) = 0"
      and ok: "\<forall>(path, e) \<in> set (broken_links (tree w)). remove_res e = None"
  proof -
    from z obtain s where
      run: "run_events cfg (events ''.'' (tree w)) (enter_root cfg w (hd (argsNotParsed cfg))) =
              (Nil, s)"
      and fin: "agree s ?s" and "\<not> (delBrokenLinks cfg \<and> delAllLinks cfg)"
      by (rule main_completes)
    with assms have na: "\<not> delAllLinks cfg" by simp
    from ok have ok': "\<forall>(p, e) \<in> set (symlinks (events ''.'' (tree w))).
        is_broken e \<longrightarrow> remove_res e = None"
      by (auto simp: broken_links_def links_def)
    from run_events_delBroken [OF assms na run] run_events_delBroken_ok [OF assms na run ok']
      agree_projections(2) [OF fin] fin
    show ?thesis by (simp add: enter_root_facts links_def broken_links_def agree_def)
  qed
  from only valid complete success show ?thesis by blast
qed

theorem delete_broken_run_witness:
  "removed (snd (main delete_broken example_root)) = [''a''] \<and>
   ''c'' \<notin> set (attempted (snd (main delete_broken example_root))) \<and>
   nofLinksRemoved (snd (main delete_broken example_root)) = 1 \<and>
   nofBrokenLinks (snd (main delete_broken example_root)) = 1"
proof -
  have flag: "delBrokenLinks delete_broken"
    by (simp add: delete_broken_def)
  have completes: "fst (main delete_broken example_root) = 0"
    by (simp add: run_unfold example_defs)
  have l: "links (tree example_root) = [(''a'', link_a), (''c'', link_c)]"
    by (simp add: example_root_def links_def Join_def is_symlink_def link_a_def link_c_def
          file_d_def symlink_mode_bit regular_mode_bit)
  have b: "broken_links (tree example_root) = [(''a'', link_a)]"
    by (simp add: broken_links_def l is_broken_def link_a_def link_c_def)
  have ok: "\<forall>(path, e) \<in> set (broken_links (tree example_root)). remove_res e = None"
    by (simp add: b link_a_def)
  have d: "distinct (map fst (links (tree example_root)))"
    by (simp add: l)
  have v: "\<not> is_broken link_c"
    by (simp add: is_broken_def link_c_def)
  show ?thesis
    using delete_broken_run [OF flag, of example_root] completes ok d v
    by (simp add: l b)
qed

text \<open>
  C5. At every point during a run (after any number \<open>k\<close> of callback invocations, and at
  the exit) the inspected counter is the number of link-aware status answers that showed
  a symbolic link, and neither the removed counter nor the broken counter exceeds it;
  while the walk goes on, the inspected counter is the number of symbolic links among
  the entries visited so far, one increment for each.
\<close>

theorem counters_at_every_point:
  "counters_ok (state_after cfg w k) \<and>
   counters_ok (snd (main cfg w)) \<and>
   (fst (run_events cfg (take k (events ''.'' (tree w)))
           (enter_root cfg w (hd (argsNotParsed cfg)))) = Nil \<longrightarrow>
      nofLinksInspected (state_after cfg w k) =
        length (symlinks (take k (events ''.'' (tree w)))))"
proof (intro conjI impI)
  show "counters_ok (state_after cfg w k)"
    unfolding state_after_def by (rule run_events_counters_ok) (rule enter_root_facts)
  show "counters_ok (snd (main cfg w))"
  proof (cases cfg w rule: main_cases)
    case early
    then show ?thesis by simp
  next
    case (walked r s)
    from run_events_counters_ok [OF enter_root_facts(8),
        of cfg "events ''.'' (tree w)" cfg w "hd (argsNotParsed cfg)"]
      walked(1) agree_projections(4) [OF walked(2)]
    show ?thesis by (simp add: walk_run_events)
  qed
next
  let ?run = "run_events cfg (take k (events ''.'' (tree w)))
                (enter_root cfg w (hd (argsNotParsed cfg)))"
  assume "fst ?run = Nil"
  then have "?run = (Nil, state_after cfg w k)"
    by (cases ?run) (simp add: state_after_def)
  from run_events_inspected [OF this]
  show "nofLinksInspected (state_after cfg w k) =
          length (symlinks (take k (events ''.'' (tree w))))"
    by (simp add: enter_root_facts)
qed

theorem counters_at_every_point_witness:
  "nofLinksInspected (state_after delete_broken example_root 2) = 1 \<and>
   nofLinksRemoved (state_after delete_broken example_root 2) = 1 \<and>
   nofBrokenLinks (state_after delete_broken example_root 2) = 1 \<and>
   counters_ok (state_after delete_broken example_root 2)"
proof -
  have ev: "take 2 (events ''.'' (tree example_root)) = [(''.'', IsDir), (''a'', Entry link_a)]"
    by (simp add: example_root_def Join_def)
  have going: "fst (run_events delete_broken (take 2 (events ''.'' (tree example_root)))
                 (enter_root delete_broken example_root (hd (argsNotParsed delete_broken)))) = Nil"
    by (simp add: ev run_unfold delete_broken_def link_a_def)
  have n: "length (symlinks (take 2 (events ''.'' (tree example_root)))) = 1"
    by (simp add: ev is_symlink_def link_a_def symlink_mode_bit)
  have c: "nofLinksRemoved (state_after delete_broken example_root 2) = 1 \<and>
      nofBrokenLinks (state_after delete_broken example_root 2) = 1"
    by (simp add: state_after_def ev run_unfold delete_broken_def link_a_def)
  show ?thesis
    using counters_at_every_point [of delete_broken example_root 2] going c
    by (simp add: n)
qed

text \<open>
  C6, as stated: when both \<open>-delete-broken\<close> and \<open>-delete-all\<close> are set, the program
  prints a usage message to standard error. It does not: \<open>fs.Usage\<close> writes its header,
  its examples and its version line with \<open>fmt.Println\<close> and \<open>fmt.Printf\<close>, to standard
  output; none of them reaches standard error.
\<close>

theorem usage_text_on_stdout:
  "(Stdout, UsageHeader) \<in> set (out (snd (main both_flags example_root))) \<and>
   (Stdout, UsageExamples) \<in> set (out (snd (main both_flags example_root))) \<and>
   (Stdout, VersionLine) \<in> set (out (snd (main both_flags example_root))) \<and>
   (Stderr, UsageHeader) \<notin> set (out (snd (main both_flags example_root))) \<and>
   (Stderr, UsageExamples) \<notin> set (out (snd (main both_flags example_root))) \<and>
   (Stderr, VersionLine) \<notin> set (out (snd (main both_flags example_root)))"
  by (simp add: run_unfold both_flags_def)

text \<open>
  C6, amended. When both \<open>-delete-broken\<close> and \<open>-delete-all\<close> are set, the program exits
  with status 1 before the walk begins and without a single call to the operating
  system: nothing is read, removed or changed, and every counter is 0. What it writes
  is, in this order: one line to standard error (that the flags are not allowed together
  or, with more or fewer than one path argument, the line of that earlier check), the
  usage header to standard output, the flag defaults to standard error, the usage
  examples and the version line to standard output.
\<close>

theorem both_flags_rejected:
  assumes "delBrokenLinks cfg" "delAllLinks cfg"
  shows "fst (main cfg w) = 1 \<and>
         calls (snd (main cfg w)) = [] \<and>
         nofLinksInspected (snd (main cfg w)) = 0 \<and>
         nofLinksRemoved (snd (main cfg w)) = 0 \<and>
         nofBrokenLinks (snd (main cfg w)) = 0 \<and>
         nofErrors (snd (main cfg w)) = 0 \<and>
         out (snd (main cfg w)) =
           [(Stderr,
             if length (argsNotParsed cfg) > 1 then UnknownArguments (argsNotParsed cfg)
             else if length (argsNotParsed cfg) < 1 then NoRootPathGiven
             else FlagsNotAllowedTogether),
            (Stdout, UsageHeader), (Stderr, PrintDefaults),
            (Stdout, UsageExamples), (Stdout, VersionLine)]"
  using assms
  by (simp add: main_def init_def Usage_def fmt_Printf_def fmt_Fprintf_Stderr_def)

theorem both_flags_rejected_witness:
  "main both_flags example_root =
     (1, \<lparr>nofErrors = 0, nofBrokenLinks = 0, nofLinksRemoved = 0, nofLinksInspected = 0,
          calls = [],
          out = [(Stderr, FlagsNotAllowedTogether), (Stdout, UsageHeader),
                 (Stderr, PrintDefaults), (Stdout, UsageExamples), (Stdout, VersionLine)]\<rparr>)"
proof -
  have flags: "delBrokenLinks both_flags" "delAllLinks both_flags"
    by (simp_all add: both_flags_def)
  have one: "length (argsNotParsed both_flags) = 1"
    by (simp add: both_flags_def)
  obtain x s where m: "main both_flags example_root = (x, s)"
    by (cases "main both_flags example_root")
  show ?thesis
    using both_flags_rejected [OF flags, of example_root] one
    by (simp add: m)
qed

text \<open>
  C7. When the root directory path does not exist, the program exits with a nonzero
  status (1) and never calls \<open>os.Remove\<close>: its only call, if any, is the \<open>os.Stat\<close> of
  the root.
\<close>

theorem missing_root_rejected:
  assumes "IsNotExist (stat_root w)"
  shows "fst (main cfg w) = 1 \<and> attempted (snd (main cfg w)) = [] \<and>
         set (calls (snd (main cfg w))) \<subseteq> {Stat (hd (argsNotParsed cfg)) (stat_root w)}"
  using assms
  by (simp add: main_def Let_def init_def Usage_def fmt_Printf_def fmt_Fprintf_Stderr_def
        log_Printf_def syscall_def attempted_def)

theorem missing_root_rejected_witness:
  "fst (main delete_all missing_root) = 1 \<and>
   attempted (snd (main delete_all missing_root)) = [] \<and>
   calls (snd (main delete_all missing_root)) = [Stat ''root'' (Some ErrNotExist)]"
proof -
  have missing: "IsNotExist (stat_root missing_root)"
    by (simp add: IsNotExist_def missing_root_def)
  have c: "calls (snd (main delete_all missing_root)) = [Stat ''root'' (Some ErrNotExist)]"
    by (simp add: run_unfold delete_all_def missing_root_def)
  show ?thesis
    using missing_root_rejected [OF missing, of delete_all] by (simp add: c)
qed

text \<open>
  C8. In every run, \<open>os.Remove\<close> is called only on paths of entries whose link-aware
  status marks them as symbolic links, and not at all when neither deletion flag is set;
  paths being distinct, it is never called on a directory, a regular file or any other
  entry that is not a symbolic link.
\<close>

theorem removal_only_of_symlinks:
  "set (attempted (snd (main cfg w))) \<subseteq> fst ` set (links (tree w)) \<and>
   (\<not> delAllLinks cfg \<and> \<not> delBrokenLinks cfg \<longrightarrow> attempted (snd (main cfg w)) = []) \<and>
   (distinct (map fst (events ''.'' (tree w))) \<longrightarrow>
      (\<forall>(path, v) \<in> set (events ''.'' (tree w)).
         (\<forall>e. v = Entry e \<longrightarrow> \<not> is_symlink e) \<longrightarrow>
         path \<notin> set (attempted (snd (main cfg w)))))"
proof -
  let ?s = "snd (main cfg w)"
  have both: "set (attempted ?s) \<subseteq> fst ` set (links (tree w)) \<and>
      (\<not> delAllLinks cfg \<and> \<not> delBrokenLinks cfg \<longrightarrow> attempted ?s = [])"
  proof (cases cfg w rule: main_cases)
    case early
    then show ?thesis by simp
  next
    case (walked r s)
    from run_events_attempted_links [OF walked(1) [unfolded walk_run_events]]
      agree_projections(1) [OF walked(2)]
    show ?thesis by (simp add: enter_root_facts links_def)
  qed
  have others: "path \<notin> set (attempted ?s)"
    if d: "distinct (map fst (events ''.'' (tree w)))"
      and m: "(path, v) \<in> set (events ''.'' (tree w))"
      and n: "\<forall>e. v = Entry e \<longrightarrow> \<not> is_symlink e" for path v
  proof
    assume "path \<in> set (attempted ?s)"
    with both have "path \<in> fst ` set (links (tree w))" by blast
    then obtain e where "(path, e) \<in> set (links (tree w))" by force
    then have e: "(path, Entry e) \<in> set (events ''.'' (tree w))" "is_symlink e"
      by (simp_all add: links_def symlinks_iff)
    from eq_key_imp_eq_value [OF d m e(1)] e(2) n show False by simp
  qed
  from both others show ?thesis by blast
qed

theorem removal_only_of_symlinks_witness:
  "attempted (snd (main delete_all example_root)) = [''a'', ''c''] \<and>
   ''d'' \<notin> set (attempted (snd (main delete_all example_root))) \<and>
   ''.'' \<notin> set (attempted (snd (main delete_all example_root))) \<and>
   attempted (snd (main report_only example_root)) = []"
proof -
  have ev: "events ''.'' (tree example_root) =
      [(''.'', IsDir), (''a'', Entry link_a), (''c'', Entry link_c), (''d'', Entry file_d)]"
    by (simp add: example_root_def Join_def)
  have d: "distinct (map fst (events ''.'' (tree example_root)))"
    by (simp add: ev)
  have f: "\<not> is_symlink file_d"
    by (simp add: is_symlink_def file_d_def regular_mode_bit)
  have a: "attempted (snd (main delete_all example_root)) = [''a'', ''c'']"
    by (simp add: run_unfold example_defs spec_unfold)
  have flags: "\<not> delAllLinks report_only \<and> \<not> delBrokenLinks report_only"
    by (simp add: report_only_def)
  show ?thesis
    using removal_only_of_symlinks [of delete_all example_root]
      removal_only_of_symlinks [of report_only example_root] d f flags
    by (simp add: ev a)
qed

text \<open>
  C9, as stated: when the status of an entry cannot be read during classification, this
  is a per-entry error and the run continues with the next entry. It does not: on
  \<open>vanishing_root\<close> the run ends with status 1 at \<open>a\<close>, no error is counted, and \<open>c\<close> is
  never inspected.
\<close>

theorem stat_failure_ends_run:
  "fst (main report_only vanishing_root) = 1 \<and>
   calls (snd (main report_only vanishing_root)) =
     [Stat ''root'' None, Chdir ''root'' None, Lstat ''a'' (Inl ErrNotExist)] \<and>
   nofErrors (snd (main report_only vanishing_root)) = 0 \<and>
   nofLinksInspected (snd (main report_only vanishing_root)) = 0"
  by (simp add: run_unfold example_defs)

text \<open>
  C9, amended. When the status of an entry cannot be read during classification, the
  callback ends the process (\<open>log.Fatalf\<close>): the run exits with status 1, no error is
  counted, and no entry after this one is visited. The same holds for an entry on which
  the walk itself reports an access error.
\<close>

theorem stat_failure_is_fatal:
  assumes "events ''.'' (tree w) = before @ (path, v) # after"
    and "(\<exists>err. v = WalkErr err) \<or> (\<exists>e err. v = Entry e \<and> lstat_res e = Inl err)"
  shows "fst (main cfg w) = 1 \<and> fst (walkFn cfg path v s) \<noteq> Nil \<and>
         nofErrors (snd (walkFn cfg path v s)) = nofErrors s \<and>
         walk cfg ''.'' (tree w) s = run_events cfg (before @ [(path, v)]) s"
proof -
  have stop: "fst (walkFn cfg path v s1) \<noteq> Nil" for s1
    using assms(2) by (auto simp: walkFn_unfold)
  have uncounted: "nofErrors (snd (walkFn cfg path v s)) = nofErrors s"
    using assms(2) by (auto simp: walkFn_unfold)
  from assms obtain err where
    m: "(path, WalkErr err) \<in> set (events ''.'' (tree w)) \<or>
        (\<exists>e. (path, Entry e) \<in> set (events ''.'' (tree w)) \<and> lstat_res e = Inl err)"
    by auto
  have "fst (main cfg w) = 1"
  proof (cases cfg w rule: main_cases)
    case early
    then show ?thesis by simp
  next
    case (walked r s0)
    with run_events_fatal [OF m, of cfg "enter_root cfg w (hd (argsNotParsed cfg))"]
    show ?thesis by (simp add: walk_run_events)
  qed
  moreover have "walk cfg ''.'' (tree w) s = run_events cfg (before @ [(path, v)]) s"
    unfolding walk_run_events assms(1) using stop by (rule run_events_stops)
  ultimately show ?thesis using stop uncounted by simp
qed

theorem stat_failure_is_fatal_witness:
  "fst (main delete_broken vanishing_root) = 1 \<and>
   fst (walkFn delete_broken ''a'' (Entry gone) init) \<noteq> Nil \<and>
   nofErrors (snd (walkFn delete_broken ''a'' (Entry gone) init)) = nofErrors init \<and>
   walk delete_broken ''.'' (tree vanishing_root) init =
     run_events delete_broken ([(''.'', IsDir)] @ [(''a'', Entry gone)]) init"
proof -
  have ev: "events ''.'' (tree vanishing_root) =
      [(''.'', IsDir)] @ (''a'', Entry gone) # [(''c'', Entry link_c)]"
    by (simp add: vanishing_root_def Join_def)
  have fails: "(\<exists>err. Entry gone = WalkErr err) \<or>
      (\<exists>e err. Entry gone = Entry e \<and> lstat_res e = Inl err)"
    by (simp add: gone_def)
  show ?thesis
    using stat_failure_is_fatal [OF ev fails, of delete_broken init] by simp
qed

text \<open>
  C10. A run with neither deletion flag that completes the walk ends with errors = 0:
  the errors counter is the number of failed removals, no removal is attempted without
  a deletion flag, and the resolution failures are counted as broken links only.
\<close>

theorem report_run_no_errors:
  assumes "\<not> delBrokenLinks cfg" "\<not> delAllLinks cfg" "fst (main cfg w) = 0"
  shows "nofErrors (snd (main cfg w)) = 0 \<and>
         errors_ok (snd (main cfg w)) \<and>
         attempted (snd (main cfg w)) = [] \<and>
         nofBrokenLinks (snd (main cfg w)) = length (broken_links (tree w))"
proof -
  from assms(3) obtain s where
    run: "run_events cfg (events ''.'' (tree w)) (enter_root cfg w (hd (argsNotParsed cfg))) =
            (Nil, s)"
    and fin: "agree s (snd (main cfg w))"
    by (rule main_completes)
  have "errors_ok s"
    using run_events_errors_ok [OF enter_root_facts(9),
        of cfg "events ''.'' (tree w)" cfg w "hd (argsNotParsed cfg)"] run
    by simp
  with run_events_noflags [OF assms(2) assms(1) run] fin
    agree_projections(1) [OF fin] agree_projections(5) [OF fin]
  show ?thesis
    by (simp add: enter_root_facts links_def broken_links_def agree_def)
qed

theorem report_run_no_errors_witness:
  "nofErrors (snd (main report_only example_root)) = 0 \<and>
   errors_ok (snd (main report_only example_root)) \<and>
   attempted (snd (main report_only example_root)) = [] \<and>
   nofBrokenLinks (snd (main report_only example_root)) = 1"
proof -
  have flags: "\<not> delBrokenLinks report_only" "\<not> delAllLinks report_only"
    by (simp_all add: report_only_def)
  have completes: "fst (main report_only example_root) = 0"
    by (simp add: run_unfold example_defs)
  have b: "length (broken_links (tree example_root)) = 1"
    by (simp add: example_defs spec_unfold Join_def symlink_mode_bit regular_mode_bit)
  show ?thesis
    using report_run_no_errors [OF flags completes] by (simp add: b)
qed

end
